theory Spec2Isabelle
  imports Main
begin

section \<open>DDRenamer: the batch dispatcher of src/App.tsx\<close>

text \<open>
  The front end collects the rename configuration, and on every drop of files sends one
  \<open>handle_rename\<close> command per path to the rename engine, logs the outcome of each
  call and, in manual-increment mode, stores the advanced counter.

  Numbers: the counters of the source are JavaScript numbers that only ever hold
  integers (they start at integer constants and change by \<open>+ 1\<close>, \<open>- 1\<close> and
  \<open>Math.max\<close>); they are modelled as \<open>int\<close>, which is what the source computes
  below \<open>2 ^ 53\<close>.
\<close>

subsection \<open>Types\<close>

text \<open>\<open>type RenameMode = "fixed" | "serial" | "replace" | "add" | "trim" | "extension"\<close>\<close>

datatype RenameMode = fixed | serial | replace | add | trim | extension

text \<open>The string union \<open>"start" | "end"\<close> of the position selectors.\<close>

datatype Position = PosStart | PosEnd

text \<open>
  The command object \<open>{ mode, config }\<close> built for one path; one constructor per
  \<open>mode\<close> string, the arguments are the fields of \<open>config\<close>.
\<close>

datatype Cmd =
    Fixed (name: string) (keep_ext: bool)
  | Serial (prefix: string) (suffix: string) (number: int) (pad: int)
      (keep_ext: bool) (keep_original: bool)
  | Replace (from_text: string) (to_text: string) (use_regex: bool)
  | Add (add_text: string) (position: Position)
  | Trim (count: int) (position: Position)
  | Extension (new_ext: string)

text \<open>The snapshot object held in \<open>configRef.current\<close>, with the fields of the source.\<close>

record Config =
  activeTab :: RenameMode
  fixedName :: string
  keepExt :: bool
  serialText :: string
  serialPosition :: Position
  serialStart :: int
  serialPad :: int
  removeOriginal :: bool
  manualIncrement :: bool
  currentManualCount :: int
  replaceFrom :: string
  replaceTo :: string
  useRegex :: bool
  addText :: string
  addPos :: Position
  trimCount :: int
  trimPos :: Position
  newExtension :: string

text \<open>
  \<open>interface LogEntry\<close>. The \<open>id\<close> string \<open>log-${Date.now()}-${logIdCounter++}\<close> is
  kept as the pair of its two numbers.
\<close>

record LogEntry =
  log_id :: "int \<times> nat"
  log_path :: string
  log_status :: string
  timestamp :: string
  success :: bool

text \<open>The value \<open>res\<close> that \<open>invoke("handle_rename", ...)\<close> resolves to.\<close>

record Res =
  res_path :: string
  res_status :: string
  new_name :: "string option"

text \<open>
  What \<open>invoke\<close> rejects with: an \<open>Error\<close> object with its \<open>message\<close>, or any
  other value, given by its \<open>String(e)\<close>.
\<close>

datatype Thrown = ErrorObject string | OtherValue string

text \<open>
  The world outside the handler: the rename engine behind \<open>invoke\<close>, which may change
  the world (the file system) at every call and either resolves or rejects, and the clock
  read by \<open>Date.now()\<close> and \<open>new Date().toLocaleTimeString()\<close>.
\<close>

record 'w Env =
  invoke :: "'w \<Rightarrow> string \<Rightarrow> Cmd \<Rightarrow> (Thrown + Res) \<times> 'w"
  date_now :: "'w \<Rightarrow> int"
  locale_time :: "'w \<Rightarrow> string"

subsection \<open>The body of the dispatch loop\<close>

text \<open>
  The \<open>switch (activeTab)\<close> of the loop body. \<open>None\<close> is the \<open>default: continue\<close>
  branch, which no value of \<open>RenameMode\<close> reaches.
\<close>

fun build_cmd :: "Config \<Rightarrow> int \<Rightarrow> Cmd option" where
  "build_cmd cfg num =
     (case activeTab cfg of
        fixed \<Rightarrow> Some (Fixed (fixedName cfg) (keepExt cfg))
      | serial \<Rightarrow>
          Some (Serial
            (if serialPosition cfg = PosStart then serialText cfg else [])
            (if serialPosition cfg = PosEnd then serialText cfg else [])
            num
            (serialPad cfg)
            (keepExt cfg)
            (\<not> removeOriginal cfg))
      | replace \<Rightarrow> Some (Replace (replaceFrom cfg) (replaceTo cfg) (useRegex cfg))
      | add \<Rightarrow> Some (Add (addText cfg) (addPos cfg))
      | trim \<Rightarrow> Some (Trim (trimCount cfg) (trimPos cfg))
      | extension \<Rightarrow> Some (Extension (newExtension cfg)))"

text \<open>The UTF-8 bytes of the two-character status text used for a success without a new name.\<close>

definition success_text :: string where
  "success_text = [CHR 0xE6, CHR 0x88, CHR 0x90, CHR 0xE5, CHR 0x8A, CHR 0x9F]"

text \<open>
  The entry pushed in the \<open>try\<close> branch. \<open>res.new_name ? ... : ...\<close> is false for an
  absent and for an empty \<open>new_name\<close>.
\<close>

definition result_entry :: "'w Env \<Rightarrow> 'w \<Rightarrow> nat \<Rightarrow> Res \<Rightarrow> LogEntry" where
  "result_entry env w ctr res =
     \<lparr> log_id = (date_now env w, ctr),
       log_path = res_path res,
       log_status =
         (if res_status res = ''Success''
          then (case new_name res of
                  None \<Rightarrow> success_text
                | Some n \<Rightarrow> if n = [] then success_text else ''-> '' @ n)
          else res_status res),
       timestamp = locale_time env w,
       success = (res_status res = ''Success'') \<rparr>"

text \<open>The entry pushed in the \<open>catch\<close> branch.\<close>

definition error_entry :: "'w Env \<Rightarrow> 'w \<Rightarrow> nat \<Rightarrow> string \<Rightarrow> Thrown \<Rightarrow> LogEntry" where
  "error_entry env w ctr filePath e =
     (let message = (case e of ErrorObject m \<Rightarrow> m | OtherValue s \<Rightarrow> s)
      in \<lparr> log_id = (date_now env w, ctr),
           log_path = filePath,
           log_status = ''Error: '' @ message,
           timestamp = locale_time env w,
           success = False \<rparr>)"

text \<open>
  The module variable \<open>logIdCounter\<close> and the world are what the handler shares with
  everything outside it.
\<close>

record 'w Outside =
  world :: 'w
  logIdCounter :: nat

text \<open>The local variables of one run of the handler: \<open>currentSeq\<close> and \<open>newLogs\<close>.\<close>

record 'w Loop = "'w Outside" +
  currentSeq :: int
  newLogs :: "LogEntry list"

text \<open>
  The \<open>try\<close>/\<open>catch\<close> around \<open>invoke\<close>: the entry for a call that resolved
  (\<open>Inr\<close>) or rejected (\<open>Inl\<close>).
\<close>

definition outcome_entry :: "'w Env \<Rightarrow> 'w \<Rightarrow> nat \<Rightarrow> string \<Rightarrow> Thrown + Res \<Rightarrow> LogEntry" where
  "outcome_entry env w ctr filePath r =
     (case r of
        Inr res \<Rightarrow> result_entry env w ctr res
      | Inl e \<Rightarrow> error_entry env w ctr filePath e)"

text \<open>
  One iteration of \<open>for (let i = 0; i < paths.length; i++)\<close> for \<open>filePath = paths[i]\<close>.
  \<open>unshift\<close> puts the new entry in front of \<open>newLogs\<close>; \<open>await\<close> makes the next
  iteration start in the world the call has left.
\<close>

definition loop_body :: "'w Env \<Rightarrow> Config \<Rightarrow> nat \<Rightarrow> string \<Rightarrow> 'w Loop \<Rightarrow> 'w Loop" where
  "loop_body env cfg i filePath s =
     (let num = (if manualIncrement cfg then currentSeq s else serialStart cfg + int i);
          s1 = (if manualIncrement cfg then s\<lparr>currentSeq := currentSeq s + 1\<rparr> else s)
      in case build_cmd cfg num of
           None \<Rightarrow> s1
         | Some cmd \<Rightarrow>
             (case invoke env (world s1) filePath cmd of
                (r, w') \<Rightarrow>
                  s1\<lparr>world := w',
                     logIdCounter := Suc (logIdCounter s1),
                     newLogs := outcome_entry env w' (logIdCounter s1) filePath r # newLogs s1\<rparr>))"

text \<open>The loop, over the paths still to process; \<open>i\<close> is the index of the first of them.\<close>

fun dispatch_loop :: "'w Env \<Rightarrow> Config \<Rightarrow> nat \<Rightarrow> string list \<Rightarrow> 'w Loop \<Rightarrow> 'w Loop" where
  "dispatch_loop env cfg i [] s = s"
| "dispatch_loop env cfg i (filePath # rest) s =
     dispatch_loop env cfg (Suc i) rest (loop_body env cfg i filePath s)"

subsection \<open>The component state and its effects\<close>

text \<open>
  The state of \<open>App\<close> that the handler and the effects read or write: the \<open>useState\<close>
  values (\<open>state\<close>, with \<open>logs\<close> and \<open>isDragOver\<close> apart) and \<open>configRef.current\<close>.
\<close>

record 'w App = "'w Outside" +
  state :: Config
  configRef :: Config
  logs :: "LogEntry list"
  isDragOver :: bool

text \<open>The initial values of the \<open>useState\<close> calls.\<close>

definition initial_config :: Config where
  "initial_config =
     \<lparr> activeTab = fixed, fixedName = [], keepExt = True,
       serialText = ''Img_'', serialPosition = PosStart, serialStart = 1, serialPad = 3,
       removeOriginal = False, manualIncrement = False, currentManualCount = 1,
       replaceFrom = [], replaceTo = [], useRegex = False,
       addText = [], addPos = PosEnd, trimCount = 1, trimPos = PosEnd,
       newExtension = ''jpg'' \<rparr>"

text \<open>
  The effects that run after a render, \<open>prev\<close> being the state of the render before.
  The first copies the state into \<open>configRef.current\<close>; its dependencies are all the
  values it copies, so it runs whenever the copy would differ from the one made before.
  The second, whose dependencies are \<open>[serialStart, manualIncrement]\<close>, runs when one
  of them has changed: while manual increment is off it sets the manual count to
  \<open>serialStart\<close>, and the render this causes copies the state into
  \<open>configRef.current\<close> again.
\<close>

definition after_render :: "Config \<Rightarrow> 'w App \<Rightarrow> 'w App" where
  "after_render prev a =
     (let a1 = a\<lparr>configRef := state a\<rparr>
      in if (serialStart (state a) \<noteq> serialStart prev
               \<or> manualIncrement (state a) \<noteq> manualIncrement prev)
            \<and> \<not> manualIncrement (state a)
         then let st = (state a)\<lparr>currentManualCount := serialStart (state a)\<rparr>
              in a1\<lparr>state := st, configRef := st\<rparr>
         else a1)"

text \<open>
  Mounting the component: every effect runs once, so the manual count is set to
  \<open>serialStart\<close> (manual increment is off initially).
\<close>

definition mount :: "'w \<Rightarrow> 'w App" where
  "mount w =
     (let st = initial_config\<lparr>currentManualCount := serialStart initial_config\<rparr>
      in \<lparr> world = w, logIdCounter = 0,
           state = st, configRef = st, logs = [], isDragOver = False \<rparr>)"

subsection \<open>The drag-and-drop handler\<close>

text \<open>The payload of a drag-and-drop event, by its \<open>type\<close>.\<close>

datatype Payload = Enter | Over | Drop "string list" | Leave

text \<open>
  The handler registered with \<open>onDragDropEvent\<close>, run from its start to its last state
  update with no other event handled in between, followed by the effects of the render
  its state updates cause. \<open>run_batch\<close> is the loop with its local variables
  initialised. The sessions below let other events in while the handler awaits the
  engine.
\<close>

definition run_batch :: "'w Env \<Rightarrow> Config \<Rightarrow> string list \<Rightarrow> 'w \<Rightarrow> nat \<Rightarrow> 'w Loop" where
  "run_batch env cfg paths w ctr =
     dispatch_loop env cfg 0 paths
       \<lparr> world = w, logIdCounter = ctr,
         currentSeq = (if manualIncrement cfg then currentManualCount cfg else serialStart cfg),
         newLogs = [] \<rparr>"

definition onDragDropEvent :: "'w Env \<Rightarrow> Payload \<Rightarrow> 'w App \<Rightarrow> 'w App" where
  "onDragDropEvent env payload a =
     (case payload of
        Enter \<Rightarrow> after_render (state a) (a\<lparr>isDragOver := True\<rparr>)
      | Over \<Rightarrow> after_render (state a) (a\<lparr>isDragOver := False\<rparr>)
      | Leave \<Rightarrow> after_render (state a) (a\<lparr>isDragOver := False\<rparr>)
      | Drop paths \<Rightarrow>
          (let a0 = a\<lparr>isDragOver := False\<rparr>
           in if length paths = 0 then after_render (state a) a0
              else
                let cfg = configRef a0;
                    s = run_batch env cfg paths (world a0) (logIdCounter a0);
                    a1 = a0\<lparr>world := world s, logIdCounter := logIdCounter s,
                            logs := take 50 (newLogs s @ logs a0)\<rparr>;
                    a2 = (if manualIncrement cfg
                          then a1\<lparr>state := (state a1)\<lparr>currentManualCount := currentSeq s\<rparr>\<rparr>
                          else a1)
                in after_render (state a) a2))"

subsection \<open>The events of the user interface\<close>

text \<open>
  The state setters the widgets call, and the drag-and-drop events. The tab buttons
  select any mode; the two arrow buttons of a number step it by one, downwards not
  below \<open>0\<close> (not below \<open>1\<close> for the padding).
\<close>

datatype Event =
    SetActiveTab RenameMode
  | SetFixedName string
  | SetKeepExt bool
  | SetSerialText string
  | SetSerialPosition Position
  | SerialStartDown
  | SerialStartUp
  | SerialPadDown
  | SerialPadUp
  | SetRemoveOriginal bool
  | SetManualIncrement bool
  | SetReplaceFrom string
  | SetReplaceTo string
  | SetUseRegex bool
  | SetAddText string
  | SetAddPos Position
  | SetTrimPos Position
  | TrimCountDown
  | TrimCountUp
  | SetNewExtension string
  | DragDrop Payload

fun set_state :: "Event \<Rightarrow> Config \<Rightarrow> Config" where
  "set_state (SetActiveTab m) c = c\<lparr>activeTab := m\<rparr>"
| "set_state (SetFixedName v) c = c\<lparr>fixedName := v\<rparr>"
| "set_state (SetKeepExt b) c = c\<lparr>keepExt := b\<rparr>"
| "set_state (SetSerialText v) c = c\<lparr>serialText := v\<rparr>"
| "set_state (SetSerialPosition p) c = c\<lparr>serialPosition := p\<rparr>"
| "set_state SerialStartDown c = c\<lparr>serialStart := max 0 (serialStart c - 1)\<rparr>"
| "set_state SerialStartUp c = c\<lparr>serialStart := serialStart c + 1\<rparr>"
| "set_state SerialPadDown c = c\<lparr>serialPad := max 1 (serialPad c - 1)\<rparr>"
| "set_state SerialPadUp c = c\<lparr>serialPad := serialPad c + 1\<rparr>"
| "set_state (SetRemoveOriginal b) c = c\<lparr>removeOriginal := b\<rparr>"
| "set_state (SetManualIncrement b) c = c\<lparr>manualIncrement := b\<rparr>"
| "set_state (SetReplaceFrom v) c = c\<lparr>replaceFrom := v\<rparr>"
| "set_state (SetReplaceTo v) c = c\<lparr>replaceTo := v\<rparr>"
| "set_state (SetUseRegex b) c = c\<lparr>useRegex := b\<rparr>"
| "set_state (SetAddText v) c = c\<lparr>addText := v\<rparr>"
| "set_state (SetAddPos p) c = c\<lparr>addPos := p\<rparr>"
| "set_state (SetTrimPos p) c = c\<lparr>trimPos := p\<rparr>"
| "set_state TrimCountDown c = c\<lparr>trimCount := max 0 (trimCount c - 1)\<rparr>"
| "set_state TrimCountUp c = c\<lparr>trimCount := trimCount c + 1\<rparr>"
| "set_state (SetNewExtension v) c = c\<lparr>newExtension := v\<rparr>"
| "set_state (DragDrop p) c = c"

text \<open>
  One event, handled to the end, with the effects of the render that follows (for a drop
  with paths: when nothing else happens before the handler ends).
\<close>

definition handle :: "'w Env \<Rightarrow> Event \<Rightarrow> 'w App \<Rightarrow> 'w App" where
  "handle env ev a =
     (case ev of
        DragDrop payload \<Rightarrow> onDragDropEvent env payload a
      | _ \<Rightarrow> after_render (state a) (a\<lparr>state := set_state ev (state a)\<rparr>))"

subsection \<open>Sessions\<close>

text \<open>
  The handler is asynchronous: at every \<open>await invoke\<close> it hands control back, and
  the events that arrive before the call returns are handled first. A batch in flight is
  kept as a task: the snapshot \<open>cfg\<close> taken at the drop, the path whose call is awaited,
  the paths after it, the index \<open>i\<close>, and the locals \<open>currentSeq\<close> and \<open>newLogs\<close>.
\<close>

record Task =
  task_cfg :: Config
  task_path :: string
  task_rest :: "string list"
  task_i :: nat
  task_seq :: int
  task_logs :: "LogEntry list"

record 'w Session =
  app :: "'w App"
  tasks :: "Task list"

text \<open>
  A drop of the paths \<open>p # ps\<close>: the part of the handler before the loop, which takes
  the snapshot and initialises the locals.
\<close>

definition start_batch :: "string \<Rightarrow> string list \<Rightarrow> 'w Session \<Rightarrow> 'w Session" where
  "start_batch p ps \<sigma> =
     (let a = app \<sigma>; cfg = configRef a
      in \<lparr> app = after_render (state a) (a\<lparr>isDragOver := False\<rparr>),
           tasks = tasks \<sigma> @
             [\<lparr> task_cfg = cfg, task_path = p, task_rest = ps, task_i = 0,
                task_seq = (if manualIncrement cfg then currentManualCount cfg
                            else serialStart cfg),
                task_logs = [] \<rparr>] \<rparr>)"

text \<open>
  The task at position \<open>k\<close> goes on: the call for its path and what follows it up to
  the next \<open>await\<close> are one iteration of the loop. After the last path the handler
  ends with \<open>setLogs\<close> and, under the \<open>manualIncrement\<close> of its snapshot, with
  \<open>setCurrentManualCount(currentSeq)\<close>; the effects of the render follow.
\<close>

definition resume :: "'w Env \<Rightarrow> nat \<Rightarrow> 'w Session \<Rightarrow> 'w Session" where
  "resume env k \<sigma> =
     (if k < length (tasks \<sigma>) then
        let t = tasks \<sigma> ! k;
            a = app \<sigma>;
            cfg = task_cfg t;
            s = loop_body env cfg (task_i t) (task_path t)
                  \<lparr> world = world a, logIdCounter = logIdCounter a,
                    currentSeq = task_seq t, newLogs = task_logs t \<rparr>;
            a1 = a\<lparr>world := world s, logIdCounter := logIdCounter s\<rparr>
        in case task_rest t of
             p # ps \<Rightarrow>
               \<lparr> app = a1,
                 tasks = (tasks \<sigma>)
                   [k := t\<lparr>task_path := p, task_rest := ps, task_i := Suc (task_i t),
                           task_seq := currentSeq s, task_logs := newLogs s\<rparr>] \<rparr>
           | [] \<Rightarrow>
               let a2 = a1\<lparr>logs := take 50 (newLogs s @ logs a1)\<rparr>;
                   a3 = (if manualIncrement cfg
                         then a2\<lparr>state := (state a2)\<lparr>currentManualCount := currentSeq s\<rparr>\<rparr>
                         else a2)
               in \<lparr> app = after_render (state a) a3,
                    tasks = take k (tasks \<sigma>) @ drop (Suc k) (tasks \<sigma>) \<rparr>
      else \<sigma>)"

text \<open>
  What happens in a session, one step at a time: an event arrives, or the call a task
  awaits returns. A drop with paths starts a task; every other event is handled at once.
\<close>

datatype Step = Ui Event | Resume nat

definition step :: "'w Env \<Rightarrow> Step \<Rightarrow> 'w Session \<Rightarrow> 'w Session" where
  "step env st \<sigma> =
     (case st of
        Resume k \<Rightarrow> resume env k \<sigma>
      | Ui ev \<Rightarrow>
          (case ev of
             DragDrop (Drop (p # ps)) \<Rightarrow> start_batch p ps \<sigma>
           | _ \<Rightarrow> \<sigma>\<lparr>app := handle env ev (app \<sigma>)\<rparr>))"

text \<open>A session: the component is mounted, then the steps are taken in their order.\<close>

definition run :: "'w Env \<Rightarrow> Step list \<Rightarrow> 'w \<Rightarrow> 'w Session" where
  "run env steps w = foldl (\<lambda>\<sigma> st. step env st \<sigma>) \<lparr> app = mount w, tasks = [] \<rparr> steps"





subsection \<open>Observing the engine\<close>

text \<open>
  The same engine, with a record of the calls it receives kept beside the world: every
  \<open>invoke\<close> appends its path and command to the record.
\<close>

definition recording :: "'w Env \<Rightarrow> ('w \<times> (string \<times> Cmd) list) Env" where
  "recording env =
     \<lparr> invoke = (\<lambda>(w, calls) p c.
         case invoke env w p c of (r, w') \<Rightarrow> (r, (w', calls @ [(p, c)]))),
       date_now = (\<lambda>(w, calls). date_now env w),
       locale_time = (\<lambda>(w, calls). locale_time env w) \<rparr>"

definition recorded :: "('w \<times> (string \<times> Cmd) list, 'z) Outside_scheme \<Rightarrow> (string \<times> Cmd) list" where
  "recorded a = snd (world a)"

section \<open>The rename engine\<close>

text \<open>
  The engine that \<open>handle_rename\<close> reaches is not among the sources; the part of it
  that computes the new name is modelled from the specification. Names are final path
  segments: the directory of a path is reattached unchanged and plays no part here.
\<close>

text \<open>
  Modelled from the spec: the Name Splitter. The extension is the substring after the
  last dot of the name; a name without a dot, or whose only such dot is its first
  character, has no extension and is its own stem.
\<close>

definition split_name :: "string \<Rightarrow> string \<times> string option" where
  "split_name n =
     (if CHR ''.'' \<notin> set n then (n, None)
      else let ext = rev (takeWhile (\<lambda>c. c \<noteq> CHR ''.'') (rev n));
               stem = take (length n - length ext - 1) n
           in if stem = [] then (n, None) else (stem, Some ext))"

text \<open>
  Modelled from the spec: the invariant of \<open>FileNameComponents\<close>, read as the way a
  name is put together from a stem and an extension.
\<close>

definition join_name :: "string \<times> string option \<Rightarrow> string" where
  "join_name p = (case p of (stem, None) \<Rightarrow> stem | (stem, Some e) \<Rightarrow> stem @ CHR ''.'' # e)"

text \<open>Modelled from the spec: a number rendered in base 10.\<close>

fun decimal :: "nat \<Rightarrow> string" where
  "decimal n = (if n < 10 then [''0123456789'' ! n]
                else decimal (n div 10) @ [''0123456789'' ! (n mod 10)])"

declare decimal.simps [simp del]

text \<open>
  Modelled from the spec: \<open>zero_padded\<close>, the number in base 10, left-padded with
  \<open>0\<close> to at least \<open>pad\<close> digits, never truncated. The spec speaks of the numbers
  the front end sends, which are not negative; a sign is kept in front here.
\<close>

definition zero_padded :: "int \<Rightarrow> int \<Rightarrow> string" where
  "zero_padded n p =
     (let d = decimal (nat \<bar>n\<bar>);
          padded = replicate (nat p - length d) (CHR ''0'') @ d
      in if n < 0 then CHR ''-'' # padded else padded)"

text \<open>
  Modelled from the spec: the literal replacement of Replace mode, every occurrence of
  \<open>from\<close> replaced by \<open>to\<close>, scanning from the left. The spec does not say what an
  empty \<open>from\<close> matches; it matches nothing here.
\<close>

fun replace_literal :: "string \<Rightarrow> string \<Rightarrow> string \<Rightarrow> string" where
  "replace_literal f t [] = []"
| "replace_literal f t (c # cs) =
     (if f \<noteq> [] \<and> take (length f) (c # cs) = f
      then t @ replace_literal f t (drop (length f) (c # cs))
      else c # replace_literal f t cs)"

text \<open>Modelled from the spec: the \<open>status\<close> of a \<open>RenameResult\<close>.\<close>

datatype Status = Success | AlreadyExists | EmptyName | InvalidPattern | IoError string

text \<open>
  Modelled from the spec: the six Mode Transformers, from the components of the name and
  the command to the components of the candidate name. The regular-expression engine is
  the parameter \<open>rx\<close>: \<open>rx from to stem\<close> is \<open>None\<close> for an invalid pattern and the
  stem with every match replaced otherwise.
\<close>

fun transform ::
  "(string \<Rightarrow> string \<Rightarrow> string \<Rightarrow> string option) \<Rightarrow> Cmd \<Rightarrow> string \<times> string option
     \<Rightarrow> Status + string \<times> string option" where
  "transform rx (Fixed nm keep) (stem, ext) = Inr (nm, if keep then ext else None)"
| "transform rx (Serial pre suf num p keep ko) (stem, ext) =
     Inr (pre @ (if ko then stem else []) @ zero_padded num p @ suf,
          if keep then ext else None)"
| "transform rx (Replace f t re) (stem, ext) =
     (if re then (case rx f t stem of None \<Rightarrow> Inl InvalidPattern | Some s \<Rightarrow> Inr (s, ext))
      else Inr (replace_literal f t stem, ext))"
| "transform rx (Add txt pos) (stem, ext) =
     Inr (if pos = PosStart then txt @ stem else stem @ txt, ext)"
| "transform rx (Trim cnt pos) (stem, ext) =
     Inr (if pos = PosStart then drop (nat cnt) stem else take (length stem - nat cnt) stem,
          ext)"
| "transform rx (Extension e) (stem, ext) =
     Inr (stem, Some (dropWhile (\<lambda>c. c = CHR ''.'') e))"

text \<open>
  Modelled from the spec: the pipeline of one invocation up to the name it yields: split,
  transform, and the Validator's rejection of an empty computed stem. The checks against
  the file system and the rename itself come after and do not change the name.
\<close>

definition new_name_for ::
  "(string \<Rightarrow> string \<Rightarrow> string \<Rightarrow> string option) \<Rightarrow> Cmd \<Rightarrow> string \<Rightarrow> Status + string" where
  "new_name_for rx cmd n =
     (case transform rx cmd (split_name n) of
        Inl e \<Rightarrow> Inl e
      | Inr (stem, ext) \<Rightarrow> if stem = [] then Inl EmptyName else Inr (join_name (stem, ext)))"

text \<open>
  Modelled from the spec: when \<open>keep_ext\<close> and the mode say that the extension is
  preserved: Fixed and Serial with \<open>keep_ext\<close>, Replace, Add and Trim always, Extension
  never.
\<close>

fun preserves_extension :: "Cmd \<Rightarrow> bool" where
  "preserves_extension (Fixed nm keep) = keep"
| "preserves_extension (Serial pre suf num p keep ko) = keep"
| "preserves_extension (Replace f t re) = True"
| "preserves_extension (Add txt pos) = True"
| "preserves_extension (Trim cnt pos) = True"
| "preserves_extension (Extension e) = False"

section \<open>Properties of the dispatcher\<close>

declare build_cmd.simps [simp del]

subsection \<open>One iteration\<close>

lemma build_cmd_Some: "\<exists>cmd. build_cmd cfg num = Some cmd"
  by (cases "activeTab cfg") (simp_all add: build_cmd.simps)

lemma build_cmd_count_irrelevant:
  "build_cmd (cfg\<lparr>currentManualCount := v\<rparr>) num = build_cmd cfg num"
  by (cases "activeTab cfg") (simp_all add: build_cmd.simps)

lemma loop_body_cases:
  assumes "build_cmd cfg (if manualIncrement cfg then currentSeq s else serialStart cfg + int i)
             = Some cmd"
    and "invoke env (world s) p cmd = (r, w')"
  shows "loop_body env cfg i p s =
     s\<lparr>world := w', logIdCounter := Suc (logIdCounter s),
       currentSeq := (if manualIncrement cfg then currentSeq s + 1 else currentSeq s),
       newLogs := outcome_entry env w' (logIdCounter s) p r # newLogs s\<rparr>"
  using assms by (simp add: loop_body_def)

lemma loop_body_shape:
  "\<exists>r w'. loop_body env cfg i p s =
         s\<lparr>world := w', logIdCounter := Suc (logIdCounter s),
           currentSeq := (if manualIncrement cfg then currentSeq s + 1 else currentSeq s),
           newLogs := outcome_entry env w' (logIdCounter s) p r # newLogs s\<rparr>"
proof -
  obtain cmd where c: "build_cmd cfg
      (if manualIncrement cfg then currentSeq s else serialStart cfg + int i) = Some cmd"
    using build_cmd_Some by blast
  obtain r w' where r: "invoke env (world s) p cmd = (r, w')"
    by (cases "invoke env (world s) p cmd") blast
  from loop_body_cases [OF c r] show ?thesis by blast
qed

lemma loop_body_currentSeq:
  "currentSeq (loop_body env cfg i p s) =
     (if manualIncrement cfg then currentSeq s + 1 else currentSeq s)"
proof -
  obtain r w' where "loop_body env cfg i p s =
         s\<lparr>world := w', logIdCounter := Suc (logIdCounter s),
           currentSeq := (if manualIncrement cfg then currentSeq s + 1 else currentSeq s),
           newLogs := outcome_entry env w' (logIdCounter s) p r # newLogs s\<rparr>"
    using loop_body_shape [of env cfg i p s] by blast
  then show ?thesis by simp
qed

lemma loop_body_logIdCounter:
  "logIdCounter (loop_body env cfg i p s) = Suc (logIdCounter s)"
proof -
  obtain r w' where "loop_body env cfg i p s =
         s\<lparr>world := w', logIdCounter := Suc (logIdCounter s),
           currentSeq := (if manualIncrement cfg then currentSeq s + 1 else currentSeq s),
           newLogs := outcome_entry env w' (logIdCounter s) p r # newLogs s\<rparr>"
    using loop_body_shape [of env cfg i p s] by blast
  then show ?thesis by simp
qed

lemma loop_body_newLogs:
  "\<exists>e. newLogs (loop_body env cfg i p s) = e # newLogs s"
proof -
  obtain r w' where "loop_body env cfg i p s =
         s\<lparr>world := w', logIdCounter := Suc (logIdCounter s),
           currentSeq := (if manualIncrement cfg then currentSeq s + 1 else currentSeq s),
           newLogs := outcome_entry env w' (logIdCounter s) p r # newLogs s\<rparr>"
    using loop_body_shape [of env cfg i p s] by blast
  then show ?thesis by simp
qed

subsection \<open>The loop\<close>

lemma dispatch_loop_append:
  "dispatch_loop env cfg i (xs @ ys) s =
     dispatch_loop env cfg (i + length xs) ys (dispatch_loop env cfg i xs s)"
  by (induction xs arbitrary: i s) simp_all

lemma dispatch_loop_snoc:
  "dispatch_loop env cfg i (xs @ [x]) s =
     loop_body env cfg (i + length xs) x (dispatch_loop env cfg i xs s)"
  by (simp add: dispatch_loop_append)

lemma dispatch_loop_currentSeq:
  "currentSeq (dispatch_loop env cfg i ps s) =
     (if manualIncrement cfg then currentSeq s + int (length ps) else currentSeq s)"
  by (induction ps arbitrary: i s) (simp_all add: loop_body_currentSeq)

lemma dispatch_loop_logIdCounter:
  "logIdCounter (dispatch_loop env cfg i ps s) = logIdCounter s + length ps"
  by (induction ps arbitrary: i s) (simp_all add: loop_body_logIdCounter)

lemma dispatch_loop_newLogs:
  "\<exists>es. newLogs (dispatch_loop env cfg i ps s) = es @ newLogs s \<and> length es = length ps"
proof (induction ps arbitrary: i s)
  case Nil
  then show ?case by simp
next
  case (Cons p ps)
  obtain e where e: "newLogs (loop_body env cfg i p s) = e # newLogs s"
    using loop_body_newLogs by blast
  obtain es where es: "newLogs (dispatch_loop env cfg (Suc i) ps (loop_body env cfg i p s))
      = es @ newLogs (loop_body env cfg i p s)" "length es = length ps"
    using Cons.IH by blast
  have "newLogs (dispatch_loop env cfg i (p # ps) s) = (es @ [e]) @ newLogs s"
    using e es by simp
  moreover have "length (es @ [e]) = length (p # ps)" using es by simp
  ultimately show ?case by blast
qed

lemma take_Suc_snoc: "k < length ps \<Longrightarrow> take (Suc k) ps = take k ps @ [ps ! k]"
  by (simp add: take_Suc_conv_app_nth)

lemma prefix_step:
  assumes "k < length ps"
  shows "dispatch_loop env cfg 0 (take (Suc k) ps) s =
           loop_body env cfg k (ps ! k) (dispatch_loop env cfg 0 (take k ps) s)"
proof -
  have "length (take k ps) = k" using assms by simp
  then show ?thesis
    using dispatch_loop_snoc [of env cfg 0 "take k ps" "ps ! k" s] assms
    by (simp add: take_Suc_snoc)
qed

lemma prefix_rest:
  "dispatch_loop env cfg 0 ps s =
     dispatch_loop env cfg (length (take k ps)) (drop k ps) (dispatch_loop env cfg 0 (take k ps) s)"
  using dispatch_loop_append [of env cfg 0 "take k ps" "drop k ps" s] by simp

subsection \<open>The record of calls\<close>

lemma invoke_recording:
  "invoke env w p c = (r, w') \<Longrightarrow>
   invoke (recording env) (w, cs) p c = (r, (w', cs @ [(p, c)]))"
  by (simp add: recording_def)

lemma loop_body_recorded:
  assumes "build_cmd cfg (if manualIncrement cfg then currentSeq s else serialStart cfg + int i)
     = Some cmd"
  shows "recorded (loop_body (recording env) cfg i p s) = recorded s @ [(p, cmd)]"
proof -
  obtain w cs where w: "world s = (w, cs)" by (cases "world s") blast
  obtain r w' where r: "invoke env w p cmd = (r, w')" by (cases "invoke env w p cmd") blast
  have "invoke (recording env) (world s) p cmd = (r, (w', cs @ [(p, cmd)]))"
    using invoke_recording [OF r] w by simp
  from loop_body_cases [OF assms this] w show ?thesis by (simp add: recorded_def)
qed

lemma dispatch_loop_recorded:
  "\<exists>new. recorded (dispatch_loop (recording env) cfg i ps s) = recorded s @ new
     \<and> map fst new = ps
     \<and> map (Some \<circ> snd) new =
         map (\<lambda>k. build_cmd cfg (if manualIncrement cfg then currentSeq s + int k
                                  else serialStart cfg + int (i + k))) [0..<length ps]"
proof (induction ps arbitrary: i s)
  case Nil
  then show ?case by simp
next
  case (Cons p ps)
  let ?s1 = "loop_body (recording env) cfg i p s"
  obtain cmd where c: "build_cmd cfg
      (if manualIncrement cfg then currentSeq s else serialStart cfg + int i) = Some cmd"
    using build_cmd_Some by blast
  have r1: "recorded ?s1 = recorded s @ [(p, cmd)]"
    using loop_body_recorded [OF c] .
  have cs: "currentSeq ?s1 = (if manualIncrement cfg then currentSeq s + 1 else currentSeq s)"
    by (rule loop_body_currentSeq)
  obtain new where new: "recorded (dispatch_loop (recording env) cfg (Suc i) ps ?s1)
        = recorded ?s1 @ new" "map fst new = ps"
      "map (Some \<circ> snd) new =
         map (\<lambda>k. build_cmd cfg (if manualIncrement cfg then currentSeq ?s1 + int k
                                  else serialStart cfg + int (Suc i + k))) [0..<length ps]"
    using Cons.IH [of "Suc i" ?s1] by blast
  let ?f = "\<lambda>k. build_cmd cfg (if manualIncrement cfg then currentSeq s + int k
                                  else serialStart cfg + int (i + k))"
  have eq: "(if manualIncrement cfg then currentSeq ?s1 + int k
             else serialStart cfg + int (Suc i + k)) =
            (if manualIncrement cfg then currentSeq s + int (Suc k)
             else serialStart cfg + int (i + Suc k))" for k
    using cs by simp
  have A: "map (Some \<circ> snd) new = map (\<lambda>k. ?f (Suc k)) [0..<length ps]"
    using new(3) by (simp only: eq)
  have B: "?f 0 = Some cmd" using c by (cases "manualIncrement cfg") simp_all
  have len: "length (p # ps) = Suc (length ps)" by simp
  have C: "map ?f [0..<length (p # ps)] = ?f 0 # map (\<lambda>k. ?f (Suc k)) [0..<length ps]"
    unfolding len by (rule map_upt_Suc)
  have "map (Some \<circ> snd) ((p, cmd) # new) = Some cmd # map (Some \<circ> snd) new"
    by simp
  also have "\<dots> = ?f 0 # map (\<lambda>k. ?f (Suc k)) [0..<length ps]"
    by (simp only: A B)
  also have "\<dots> = map ?f [0..<length (p # ps)]"
    by (simp only: C)
  finally have D: "map (Some \<circ> snd) ((p, cmd) # new) = map ?f [0..<length (p # ps)]" .
  have "recorded (dispatch_loop (recording env) cfg i (p # ps) s)
      = recorded (dispatch_loop (recording env) cfg (Suc i) ps ?s1)"
    by simp
  also have "\<dots> = (recorded s @ [(p, cmd)]) @ new"
    by (simp only: new(1) r1)
  finally have E: "recorded (dispatch_loop (recording env) cfg i (p # ps) s)
      = recorded s @ ((p, cmd) # new)"
    by simp
  have F: "map fst ((p, cmd) # new) = p # ps" using new(2) by simp
  show ?case
    by (rule exI [of _ "(p, cmd) # new"]) (intro conjI E F D)
qed

subsection \<open>The handler\<close>

lemma after_render_same:
  "serialStart (state a) = serialStart prev \<Longrightarrow>
   manualIncrement (state a) = manualIncrement prev \<Longrightarrow>
   after_render prev a = a\<lparr>configRef := state a\<rparr>"
  by (simp add: after_render_def)

lemma drop_empty:
  "onDragDropEvent env (Drop []) a = a\<lparr>isDragOver := False, configRef := state a\<rparr>"
  by (simp add: onDragDropEvent_def after_render_same)

lemma drop_nonempty:
  assumes "ps \<noteq> []"
  shows "onDragDropEvent env (Drop ps) a =
     (let cfg = configRef a;
          fin = run_batch env cfg ps (world a) (logIdCounter a);
          st = (if manualIncrement cfg
                then (state a)\<lparr>currentManualCount := currentSeq fin\<rparr> else state a)
      in a\<lparr>world := world fin, logIdCounter := logIdCounter fin,
           state := st, configRef := st,
           logs := take 50 (newLogs fin @ logs a), isDragOver := False\<rparr>)"
  using assms by (simp add: onDragDropEvent_def after_render_same Let_def)


lemma run_batch_recorded:
  "\<exists>new. recorded (run_batch (recording env) cfg ps w ctr) = snd w @ new
     \<and> map fst new = ps
     \<and> map (Some \<circ> snd) new =
         map (\<lambda>k. build_cmd cfg ((if manualIncrement cfg then currentManualCount cfg
                                   else serialStart cfg) + int k)) [0..<length ps]"
proof -
  let ?s0 = "\<lparr> world = w, logIdCounter = ctr,
         currentSeq = (if manualIncrement cfg then currentManualCount cfg else serialStart cfg),
         newLogs = [] \<rparr>"
  obtain new where new:
    "recorded (dispatch_loop (recording env) cfg 0 ps ?s0) = recorded ?s0 @ new"
    "map fst new = ps"
    "map (Some \<circ> snd) new =
         map (\<lambda>k. build_cmd cfg (if manualIncrement cfg then currentSeq ?s0 + int k
                                  else serialStart cfg + int (0 + k))) [0..<length ps]"
    using dispatch_loop_recorded [of env cfg 0 ps ?s0] by blast
  have eq: "(if manualIncrement cfg then currentSeq ?s0 + int k
             else serialStart cfg + int (0 + k)) =
            (if manualIncrement cfg then currentManualCount cfg else serialStart cfg) + int k" for k
    by simp
  have A: "map (Some \<circ> snd) new =
         map (\<lambda>k. build_cmd cfg ((if manualIncrement cfg then currentManualCount cfg
                                   else serialStart cfg) + int k)) [0..<length ps]"
    using new(3) by (simp only: eq)
  have B: "recorded (run_batch (recording env) cfg ps w ctr) = snd w @ new"
    using new(1) by (simp add: run_batch_def recorded_def)
  show ?thesis
    by (rule exI [of _ new]) (intro conjI B new(2) A)
qed

lemma run_batch_currentSeq:
  "currentSeq (run_batch env cfg ps w ctr) =
     (if manualIncrement cfg then currentManualCount cfg + int (length ps) else serialStart cfg)"
  by (simp add: run_batch_def dispatch_loop_currentSeq)

lemma drop_state:
  assumes "configRef a = state a"
  shows "state (onDragDropEvent env (Drop ps) a) =
           (if manualIncrement (state a)
            then (state a)\<lparr>currentManualCount := currentManualCount (state a) + int (length ps)\<rparr>
            else state a)"
    and "configRef (onDragDropEvent env (Drop ps) a) = state (onDragDropEvent env (Drop ps) a)"
proof -
  show "state (onDragDropEvent env (Drop ps) a) =
           (if manualIncrement (state a)
            then (state a)\<lparr>currentManualCount := currentManualCount (state a) + int (length ps)\<rparr>
            else state a)"
  proof (cases "ps = []")
    case True
    then show ?thesis by (simp add: drop_empty)
  next
    case False
    then show ?thesis
      using assms by (simp add: drop_nonempty Let_def run_batch_currentSeq)
  qed
  show "configRef (onDragDropEvent env (Drop ps) a) = state (onDragDropEvent env (Drop ps) a)"
  proof (cases "ps = []")
    case True
    then show ?thesis by (simp add: drop_empty)
  next
    case False
    then show ?thesis by (simp add: drop_nonempty Let_def)
  qed
qed

lemma drop_recorded:
  "\<exists>new. recorded (onDragDropEvent (recording env) (Drop ps) a) = recorded a @ new
     \<and> map fst new = ps
     \<and> map (Some \<circ> snd) new =
         map (\<lambda>k. build_cmd (configRef a)
                    ((if manualIncrement (configRef a) then currentManualCount (configRef a)
                      else serialStart (configRef a)) + int k)) [0..<length ps]"
proof (cases "ps = []")
  case True
  then show ?thesis by (simp add: drop_empty recorded_def)
next
  case False
  have "recorded (onDragDropEvent (recording env) (Drop ps) a) =
          recorded (run_batch (recording env) (configRef a) ps (world a) (logIdCounter a))"
    using False by (simp add: drop_nonempty Let_def recorded_def)
  then show ?thesis
    using run_batch_recorded [of env "configRef a" ps "world a" "logIdCounter a"]
    by (simp only: recorded_def)
qed


lemma run_batch_newLogs_length:
  "length (newLogs (run_batch env cfg ps w ctr)) = length ps"
proof -
  obtain es where "newLogs (run_batch env cfg ps w ctr) = es @ []" "length es = length ps"
    using dispatch_loop_newLogs
      [of env cfg 0 ps "\<lparr> world = w, logIdCounter = ctr,
         currentSeq = (if manualIncrement cfg then currentManualCount cfg else serialStart cfg),
         newLogs = [] \<rparr>"]
    unfolding run_batch_def by auto
  then show ?thesis by simp
qed

lemma drop_logs:
  "ps \<noteq> [] \<Longrightarrow>
   logs (onDragDropEvent env (Drop ps) a) =
     take 50 (newLogs (run_batch env (configRef a) ps (world a) (logIdCounter a)) @ logs a)"
  by (simp add: drop_nonempty Let_def)

subsection \<open>Numbering\<close>

lemma map_upt_add:
  "map f [0..<n + m] = map f [0..<n] @ map (\<lambda>k. f (n + k)) [0..<m]"
  by (induction m) simp_all

lemma build_cmd_serial:
  "activeTab cfg = serial \<Longrightarrow>
   build_cmd cfg num =
     Some (Serial
       (if serialPosition cfg = PosStart then serialText cfg else [])
       (if serialPosition cfg = PosEnd then serialText cfg else [])
       num (serialPad cfg) (keepExt cfg) (\<not> removeOriginal cfg))"
  by (simp add: build_cmd.simps)

lemma serial_numbers:
  assumes "activeTab cfg = serial"
    and "map (Some \<circ> snd) calls = map (\<lambda>k. build_cmd cfg (f k)) idx"
  shows "map (number \<circ> snd) calls = map f idx"
proof -
  have "map (number \<circ> the) (map (Some \<circ> snd) calls) =
        map (number \<circ> the) (map (\<lambda>k. build_cmd cfg (f k)) idx)"
    by (simp only: assms(2))
  then show ?thesis
    by (simp add: comp_def build_cmd_serial [OF assms(1)])
qed

text \<open>
  C1. In manual-increment mode, a drop of the paths \<open>ps\<close> made when the stored
  manual counter is \<open>v\<close> sends the engine one command per path, in drop order, built
  with the numbers \<open>v, v + 1, \<dots>, v + length ps - 1\<close>, and leaves the stored counter
  at \<open>v + length ps\<close>; a following drop of the paths \<open>qs\<close> goes on with
  \<open>v + length ps, \<dots>\<close> and leaves the counter at \<open>v + length ps + length qs\<close>.
  In the serial tab the numbers are the \<open>number\<close> fields of the commands. The record
  of calls is empty before the first drop, so that it holds the calls of the two drops.
\<close>

theorem manual_numbers_consecutive:
  assumes "configRef a = state a"
    and "manualIncrement (state a)"
    and "currentManualCount (state a) = v"
    and "recorded a = []"
  shows "let a1 = onDragDropEvent (recording env) (Drop ps) a;
             a2 = onDragDropEvent (recording env) (Drop qs) a1
         in map fst (recorded a1) = ps
          \<and> map (Some \<circ> snd) (recorded a1) =
              map (\<lambda>k. build_cmd (state a) (v + int k)) [0..<length ps]
          \<and> currentManualCount (state a1) = v + int (length ps)
          \<and> map fst (recorded a2) = ps @ qs
          \<and> map (Some \<circ> snd) (recorded a2) =
              map (\<lambda>k. build_cmd (state a) (v + int k)) [0..<length ps + length qs]
          \<and> currentManualCount (state a2) = v + int (length ps) + int (length qs)
          \<and> (activeTab (state a) = serial \<longrightarrow>
                map (number \<circ> snd) (recorded a2) =
                  map (\<lambda>k. v + int k) [0..<length ps + length qs])"
proof -
  let ?a1 = "onDragDropEvent (recording env) (Drop ps) a"
  let ?a2 = "onDragDropEvent (recording env) (Drop qs) ?a1"
  let ?f = "\<lambda>k. build_cmd (state a) (v + int k)"
  obtain new1 where n1: "recorded ?a1 = recorded a @ new1" "map fst new1 = ps"
    "map (Some \<circ> snd) new1 =
         map (\<lambda>k. build_cmd (configRef a)
                    ((if manualIncrement (configRef a) then currentManualCount (configRef a)
                      else serialStart (configRef a)) + int k)) [0..<length ps]"
    using drop_recorded [where env=env and ps=ps and a=a] by blast
  have r1: "recorded ?a1 = new1" using n1(1) assms(4) by simp
  have c1: "map (Some \<circ> snd) new1 = map ?f [0..<length ps]"
    using n1(3) assms(1,2,3) by simp
  have s1: "state ?a1 = (state a)\<lparr>currentManualCount := v + int (length ps)\<rparr>"
    using drop_state(1) [OF assms(1), where env="recording env" and ps=ps] assms(2,3) by simp
  have g1: "configRef ?a1 = state ?a1"
    using drop_state(2) [OF assms(1)] .
  have m1: "manualIncrement (state ?a1)" using s1 assms(2) by simp
  have v1: "currentManualCount (state ?a1) = v + int (length ps)" using s1 by simp
  obtain new2 where n2: "recorded ?a2 = recorded ?a1 @ new2" "map fst new2 = qs"
    "map (Some \<circ> snd) new2 =
         map (\<lambda>k. build_cmd (configRef ?a1)
                    ((if manualIncrement (configRef ?a1) then currentManualCount (configRef ?a1)
                      else serialStart (configRef ?a1)) + int k)) [0..<length qs]"
    using drop_recorded [where env=env and ps=qs and a="?a1"] by blast
  have b: "build_cmd (state ?a1) num = build_cmd (state a) num" for num
    unfolding s1 by (rule build_cmd_count_irrelevant)
  have e2: "(if manualIncrement (configRef ?a1) then currentManualCount (configRef ?a1)
             else serialStart (configRef ?a1)) + int k = v + int (length ps + k)" for k
    using m1 v1 by (simp add: g1)
  have c2: "map (Some \<circ> snd) new2 = map (\<lambda>k. ?f (length ps + k)) [0..<length qs]"
    using n2(3) unfolding e2 by (simp only: g1 b)
  have r2: "recorded ?a2 = new1 @ new2" using n2(1) r1 by simp
  have f2: "map fst (recorded ?a2) = ps @ qs" using r2 n1(2) n2(2) by simp
  have "map (Some \<circ> snd) (recorded ?a2) =
          map ?f [0..<length ps] @ map (\<lambda>k. ?f (length ps + k)) [0..<length qs]"
    using r2 c1 c2 by simp
  then have c12: "map (Some \<circ> snd) (recorded ?a2) = map ?f [0..<length ps + length qs]"
    by (simp only: map_upt_add [of ?f "length ps" "length qs"])
  have s2: "state ?a2 =
      (state ?a1)\<lparr>currentManualCount := currentManualCount (state ?a1) + int (length qs)\<rparr>"
    using drop_state(1) [OF g1, where env="recording env" and ps=qs] m1 by simp
  have v2: "currentManualCount (state ?a2) = v + int (length ps) + int (length qs)"
    using s2 v1 by simp
  have ser: "activeTab (state a) = serial \<longrightarrow>
                map (number \<circ> snd) (recorded ?a2) =
                  map (\<lambda>k. v + int k) [0..<length ps + length qs]"
  proof
    assume "activeTab (state a) = serial"
    then show "map (number \<circ> snd) (recorded ?a2) =
                  map (\<lambda>k. v + int k) [0..<length ps + length qs]"
      using c12 by (rule serial_numbers)
  qed
  have f1: "map fst (recorded ?a1) = ps" using r1 n1(2) by simp
  have d1: "map (Some \<circ> snd) (recorded ?a1) = map ?f [0..<length ps]"
    using r1 c1 by simp
  show ?thesis
    unfolding Let_def by (intro conjI f1 d1 v1 f2 c12 v2 ser)
qed

theorem manual_numbers_consecutive_witness:
  "let env = \<lparr> invoke = (\<lambda>w p c. (Inl (OtherValue ''denied''), w)),
                 date_now = (\<lambda>w. 0), locale_time = (\<lambda>w. []) \<rparr>;
       st = initial_config\<lparr>activeTab := serial, manualIncrement := True\<rparr>;
       a = \<lparr> world = ((), []), logIdCounter = 0, state = st, configRef = st,
             logs = [], isDragOver = False \<rparr>;
       a1 = onDragDropEvent (recording env) (Drop [''a'', ''b'', ''c'']) a;
       a2 = onDragDropEvent (recording env) (Drop [''d'', ''e'']) a1
   in map fst (recorded a1) = [''a'', ''b'', ''c'']
    \<and> currentManualCount (state a1) = 4
    \<and> map (number \<circ> snd) (recorded a2) = [1, 2, 3, 4, 5]
    \<and> currentManualCount (state a2) = 6"
  using manual_numbers_consecutive
    [where env = "\<lparr> invoke = (\<lambda>w p c. (Inl (OtherValue ''denied''), w)),
                 date_now = (\<lambda>w. 0), locale_time = (\<lambda>w. []) \<rparr>"
       and a = "\<lparr> world = ((), []), logIdCounter = 0,
                 state = initial_config\<lparr>activeTab := serial, manualIncrement := True\<rparr>,
                 configRef = initial_config\<lparr>activeTab := serial, manualIncrement := True\<rparr>,
                 logs = [], isDragOver = False \<rparr>"
       and v = 1 and ps = "[''a'', ''b'', ''c'']" and qs = "[''d'', ''e'']"]
  by (simp add: Let_def initial_config_def recorded_def)

text \<open>
  C2. In the serial tab without manual increment, a drop sends the engine one Serial
  command per path, in drop order, the path at index \<open>i\<close> with the number
  \<open>serialStart + i\<close>; the drop leaves the state as it was, and a following drop numbers
  its paths from \<open>serialStart\<close> again.
\<close>

theorem batch_numbers_from_start:
  assumes "configRef a = state a"
    and "\<not> manualIncrement (state a)"
    and "activeTab (state a) = serial"
    and "recorded a = []"
  shows "let a1 = onDragDropEvent (recording env) (Drop ps) a;
             a2 = onDragDropEvent (recording env) (Drop qs) a1
         in map fst (recorded a1) = ps
          \<and> map (Some \<circ> snd) (recorded a1) =
              map (\<lambda>i. build_cmd (state a) (serialStart (state a) + int i)) [0..<length ps]
          \<and> map (number \<circ> snd) (recorded a1) =
              map (\<lambda>i. serialStart (state a) + int i) [0..<length ps]
          \<and> state a1 = state a
          \<and> map fst (recorded a2) = ps @ qs
          \<and> map (number \<circ> snd) (recorded a2) =
              map (\<lambda>i. serialStart (state a) + int i) [0..<length ps]
              @ map (\<lambda>j. serialStart (state a) + int j) [0..<length qs]"
proof -
  let ?a1 = "onDragDropEvent (recording env) (Drop ps) a"
  let ?a2 = "onDragDropEvent (recording env) (Drop qs) ?a1"
  let ?f = "\<lambda>i. build_cmd (state a) (serialStart (state a) + int i)"
  let ?g = "\<lambda>i. serialStart (state a) + int i"
  obtain new1 where n1: "recorded ?a1 = recorded a @ new1" "map fst new1 = ps"
    "map (Some \<circ> snd) new1 =
         map (\<lambda>k. build_cmd (configRef a)
                    ((if manualIncrement (configRef a) then currentManualCount (configRef a)
                      else serialStart (configRef a)) + int k)) [0..<length ps]"
    using drop_recorded [where env=env and ps=ps and a=a] by blast
  have r1: "recorded ?a1 = new1" using n1(1) assms(4) by simp
  have c1: "map (Some \<circ> snd) new1 = map ?f [0..<length ps]"
    using n1(3) assms(1,2) by simp
  have s1: "state ?a1 = state a"
    using drop_state(1) [OF assms(1), where env="recording env" and ps=ps] assms(2) by simp
  have g1: "configRef ?a1 = state a"
    using drop_state(2) [OF assms(1), where env="recording env" and ps=ps] s1 by simp
  obtain new2 where n2: "recorded ?a2 = recorded ?a1 @ new2" "map fst new2 = qs"
    "map (Some \<circ> snd) new2 =
         map (\<lambda>k. build_cmd (configRef ?a1)
                    ((if manualIncrement (configRef ?a1) then currentManualCount (configRef ?a1)
                      else serialStart (configRef ?a1)) + int k)) [0..<length qs]"
    using drop_recorded [where env=env and ps=qs and a="?a1"] by blast
  have c2: "map (Some \<circ> snd) new2 = map ?f [0..<length qs]"
    using n2(3) assms(2) unfolding g1 by simp
  have f1: "map fst (recorded ?a1) = ps" using r1 n1(2) by simp
  have d1: "map (Some \<circ> snd) (recorded ?a1) = map ?f [0..<length ps]"
    using r1 c1 by simp
  have k1: "map (number \<circ> snd) (recorded ?a1) = map ?g [0..<length ps]"
    using assms(3) d1 by (rule serial_numbers)
  have k2: "map (number \<circ> snd) new2 = map ?g [0..<length qs]"
    using assms(3) c2 by (rule serial_numbers)
  have r2: "recorded ?a2 = recorded ?a1 @ new2" using n2(1) .
  have f2: "map fst (recorded ?a2) = ps @ qs" using r2 f1 n2(2) by simp
  have k12: "map (number \<circ> snd) (recorded ?a2) =
      map ?g [0..<length ps] @ map ?g [0..<length qs]"
    using r2 k1 k2 by simp
  show ?thesis
    unfolding Let_def by (intro conjI f1 d1 k1 s1 f2 k12)
qed

theorem batch_numbers_from_start_witness:
  "let env = \<lparr> invoke = (\<lambda>w p c. (Inr \<lparr> res_path = p, res_status = ''Success'',
                                           new_name = None \<rparr>, w)),
                 date_now = (\<lambda>w. 0), locale_time = (\<lambda>w. []) \<rparr>;
       st = initial_config\<lparr>activeTab := serial, serialText := ''Vacation_''\<rparr>;
       a = \<lparr> world = ((), []), logIdCounter = 0, state = st, configRef = st,
             logs = [], isDragOver = False \<rparr>;
       a1 = onDragDropEvent (recording env) (Drop [''IMG1.png'', ''IMG2.png'']) a;
       a2 = onDragDropEvent (recording env) (Drop [''IMG3.png'']) a1
   in map fst (recorded a1) = [''IMG1.png'', ''IMG2.png'']
    \<and> map (number \<circ> snd) (recorded a1) = [1, 2]
    \<and> map (number \<circ> snd) (recorded a2) = [1, 2, 1]
    \<and> state a1 = st"
  using batch_numbers_from_start
    [where env = "\<lparr> invoke = (\<lambda>w p c. (Inr \<lparr> res_path = p, res_status = ''Success'',
                                           new_name = None \<rparr>, w)),
                 date_now = (\<lambda>w. 0), locale_time = (\<lambda>w. []) \<rparr>"
       and a = "\<lparr> world = ((), []), logIdCounter = 0,
                 state = initial_config\<lparr>activeTab := serial, serialText := ''Vacation_''\<rparr>,
                 configRef = initial_config\<lparr>activeTab := serial, serialText := ''Vacation_''\<rparr>,
                 logs = [], isDragOver = False \<rparr>"
       and ps = "[''IMG1.png'', ''IMG2.png'']" and qs = "[''IMG3.png'']"]
  by (simp add: Let_def initial_config_def recorded_def)

subsection \<open>The entries of a batch\<close>

lemma loop_body_entry:
  "\<exists>cmd r w'.
      build_cmd cfg (if manualIncrement cfg then currentSeq s else serialStart cfg + int i)
        = Some cmd
    \<and> invoke env (world s) p cmd = (r, w')
    \<and> world (loop_body env cfg i p s) = w'
    \<and> newLogs (loop_body env cfg i p s) =
        outcome_entry env w' (logIdCounter s) p r # newLogs s"
proof -
  obtain cmd where c: "build_cmd cfg
      (if manualIncrement cfg then currentSeq s else serialStart cfg + int i) = Some cmd"
    using build_cmd_Some by blast
  obtain r w' where r: "invoke env (world s) p cmd = (r, w')"
    by (cases "invoke env (world s) p cmd") blast
  have "world (loop_body env cfg i p s) = w'"
    and "newLogs (loop_body env cfg i p s) =
        outcome_entry env w' (logIdCounter s) p r # newLogs s"
    using loop_body_cases [OF c r] by simp_all
  with c r show ?thesis by blast
qed

lemma newLogs_nth:
  assumes "k < length ps"
  shows "newLogs (dispatch_loop env cfg 0 ps s) ! (length ps - 1 - k) =
           hd (newLogs (dispatch_loop env cfg 0 (take (Suc k) ps) s))"
proof -
  let ?mid = "dispatch_loop env cfg 0 (take (Suc k) ps) s"
  let ?pre = "dispatch_loop env cfg 0 (take k ps) s"
  obtain e where e: "newLogs ?mid = e # newLogs ?pre"
    using loop_body_newLogs [of env cfg k "ps ! k" ?pre] prefix_step [OF assms, of env cfg s]
    by auto
  obtain es where es:
    "newLogs (dispatch_loop env cfg (length (take (Suc k) ps)) (drop (Suc k) ps) ?mid)
       = es @ newLogs ?mid"
    "length es = length (drop (Suc k) ps)"
    using dispatch_loop_newLogs by blast
  have fin: "newLogs (dispatch_loop env cfg 0 ps s) = es @ e # newLogs ?pre"
    using es(1) e prefix_rest [of env cfg ps s "Suc k"] by simp
  have "length es = length ps - 1 - k" using es(2) by simp
  then show ?thesis using fin e by (simp add: nth_append)
qed

text \<open>
  C7. In manual-increment mode every iteration of the loop advances the counter by
  exactly one, whatever the engine does with the path (resolve with any status, or
  reject); so the loop over the paths \<open>ps\<close> advances it by \<open>length ps\<close>, and the
  batch of a drop ends with the stored counter plus \<open>length ps\<close>.
\<close>

theorem manual_counter_once_per_path:
  assumes "manualIncrement cfg"
  shows "currentSeq (loop_body env cfg i p s) = currentSeq s + 1
       \<and> currentSeq (dispatch_loop env cfg i ps s) = currentSeq s + int (length ps)
       \<and> currentSeq (run_batch env cfg ps w ctr) = currentManualCount cfg + int (length ps)"
  using assms
  by (simp add: loop_body_currentSeq dispatch_loop_currentSeq run_batch_currentSeq)

theorem manual_counter_once_per_path_witness:
  "let env = \<lparr> invoke = (\<lambda>w p c. if p = ''gone'' then (Inl (ErrorObject ''no such file''), w)
                                  else (Inr \<lparr> res_path = p, res_status = ''AlreadyExists'',
                                             new_name = None \<rparr>, w)),
                 date_now = (\<lambda>w. 0), locale_time = (\<lambda>w. []) \<rparr>;
       cfg = initial_config\<lparr>manualIncrement := True, currentManualCount := 7\<rparr>
   in manualIncrement cfg
    \<and> currentSeq (run_batch env cfg [''gone'', ''x.txt''] () 0) = 9"
  using manual_counter_once_per_path
    [where env = "\<lparr> invoke = (\<lambda>w p c. if p = ''gone'' then (Inl (ErrorObject ''no such file''), w)
                                  else (Inr \<lparr> res_path = p, res_status = ''AlreadyExists'',
                                             new_name = None \<rparr>, w)),
                 date_now = (\<lambda>w. 0), locale_time = (\<lambda>w. []) \<rparr>"
       and cfg = "initial_config\<lparr>manualIncrement := True, currentManualCount := 7\<rparr>"
       and ps = "[''gone'', ''x.txt'']" and w = "()" and ctr = 0]
  by (simp add: Let_def)

text \<open>
  C3. Every path of a batch gets exactly one entry. When the loop reaches the path at
  index \<open>k\<close> (in the state \<open>s\<close> left by the paths before it), it builds a command and
  invokes the engine; if the call resolves, the entry pushed carries the status of the
  result (success exactly for the status \<open>Success\<close>, any other status verbatim); if it
  rejects, an error entry for that path is pushed; in both cases the loop goes on from
  the world the call left. The batch's list of entries grows by one entry per path, so a
  batch has as many entries as paths; they are the first entries of the retained log
  after the drop when the batch has at most 50 paths (the retained log holds no more).
\<close>

theorem one_entry_per_path:
  assumes "k < length ps"
  shows "let s = dispatch_loop env cfg 0 (take k ps) s0;
             s' = dispatch_loop env cfg 0 (take (Suc k) ps) s0
         in (\<exists>cmd r w'.
               build_cmd cfg (if manualIncrement cfg then currentSeq s
                              else serialStart cfg + int k) = Some cmd
             \<and> invoke env (world s) (ps ! k) cmd = (r, w')
             \<and> world s' = w'
             \<and> tl (newLogs s') = newLogs s
             \<and> (case r of
                  Inr res \<Rightarrow>
                    hd (newLogs s') = result_entry env w' (logIdCounter s) res
                    \<and> success (hd (newLogs s')) = (res_status res = ''Success'')
                    \<and> (res_status res \<noteq> ''Success'' \<longrightarrow>
                          log_status (hd (newLogs s')) = res_status res)
                | Inl e \<Rightarrow>
                    hd (newLogs s') = error_entry env w' (logIdCounter s) (ps ! k) e
                    \<and> log_path (hd (newLogs s')) = ps ! k
                    \<and> \<not> success (hd (newLogs s'))))
          \<and> length (newLogs s') = Suc (length (newLogs s))
          \<and> length (newLogs (dispatch_loop env cfg 0 ps s0)) = length (newLogs s0) + length ps
          \<and> length (newLogs (run_batch env (configRef a) ps (world a) (logIdCounter a)))
               = length ps
          \<and> (length ps \<le> 50 \<longrightarrow>
                take (length ps) (logs (onDragDropEvent env (Drop ps) a)) =
                  newLogs (run_batch env (configRef a) ps (world a) (logIdCounter a)))"
proof -
  let ?s = "dispatch_loop env cfg 0 (take k ps) s0"
  let ?s' = "dispatch_loop env cfg 0 (take (Suc k) ps) s0"
  have step: "?s' = loop_body env cfg k (ps ! k) ?s"
    using prefix_step [OF assms] .
  obtain cmd r w' where
    c: "build_cmd cfg (if manualIncrement cfg then currentSeq ?s
                       else serialStart cfg + int k) = Some cmd"
    and r: "invoke env (world ?s) (ps ! k) cmd = (r, w')"
    and w: "world ?s' = w'"
    and n: "newLogs ?s' = outcome_entry env w' (logIdCounter ?s) (ps ! k) r # newLogs ?s"
    using loop_body_entry [of cfg ?s k env "ps ! k"] unfolding step by blast
  have t: "tl (newLogs ?s') = newLogs ?s" using n by simp
  have h: "hd (newLogs ?s') = outcome_entry env w' (logIdCounter ?s) (ps ! k) r"
    using n by simp
  have e: "(case r of
                  Inr res \<Rightarrow>
                    hd (newLogs ?s') = result_entry env w' (logIdCounter ?s) res
                    \<and> success (hd (newLogs ?s')) = (res_status res = ''Success'')
                    \<and> (res_status res \<noteq> ''Success'' \<longrightarrow>
                          log_status (hd (newLogs ?s')) = res_status res)
                | Inl e \<Rightarrow>
                    hd (newLogs ?s') = error_entry env w' (logIdCounter ?s) (ps ! k) e
                    \<and> log_path (hd (newLogs ?s')) = ps ! k
                    \<and> \<not> success (hd (newLogs ?s')))"
    unfolding h
    by (cases r) (simp_all add: outcome_entry_def result_entry_def error_entry_def)
  have ex: "\<exists>cmd r w'.
               build_cmd cfg (if manualIncrement cfg then currentSeq ?s
                              else serialStart cfg + int k) = Some cmd
             \<and> invoke env (world ?s) (ps ! k) cmd = (r, w')
             \<and> world ?s' = w'
             \<and> tl (newLogs ?s') = newLogs ?s
             \<and> (case r of
                  Inr res \<Rightarrow>
                    hd (newLogs ?s') = result_entry env w' (logIdCounter ?s) res
                    \<and> success (hd (newLogs ?s')) = (res_status res = ''Success'')
                    \<and> (res_status res \<noteq> ''Success'' \<longrightarrow>
                          log_status (hd (newLogs ?s')) = res_status res)
                | Inl e \<Rightarrow>
                    hd (newLogs ?s') = error_entry env w' (logIdCounter ?s) (ps ! k) e
                    \<and> log_path (hd (newLogs ?s')) = ps ! k
                    \<and> \<not> success (hd (newLogs ?s')))"
    by (rule exI [of _ cmd], rule exI [of _ r], rule exI [of _ w']) (intro conjI c r w t e)
  have l1: "length (newLogs ?s') = Suc (length (newLogs ?s))" using n by simp
  obtain es where "newLogs (dispatch_loop env cfg 0 ps s0) = es @ newLogs s0"
    "length es = length ps"
    using dispatch_loop_newLogs by blast
  then have l2: "length (newLogs (dispatch_loop env cfg 0 ps s0)) = length (newLogs s0) + length ps"
    by simp
  let ?batch = "newLogs (run_batch env (configRef a) ps (world a) (logIdCounter a))"
  have l3: "length ?batch = length ps" by (rule run_batch_newLogs_length)
  have l4: "length ps \<le> 50 \<longrightarrow>
      take (length ps) (logs (onDragDropEvent env (Drop ps) a)) = ?batch"
  proof
    assume le: "length ps \<le> 50"
    have "ps \<noteq> []" using assms by auto
    then have "logs (onDragDropEvent env (Drop ps) a) = take 50 (?batch @ logs a)"
      by (rule drop_logs)
    then have "take (length ps) (logs (onDragDropEvent env (Drop ps) a)) =
        take (length ?batch) (?batch @ logs a)"
      using le l3 by (simp add: min_absorb1)
    then show "take (length ps) (logs (onDragDropEvent env (Drop ps) a)) = ?batch"
      by simp
  qed
  show ?thesis unfolding Let_def by (intro conjI ex l1 l2 l3 l4)
qed

theorem one_entry_per_path_witness:
  "let env = \<lparr> invoke = (\<lambda>w p c. if p = ''gone'' then (Inl (ErrorObject ''no such file''), w)
                                  else (Inr \<lparr> res_path = p, res_status = ''Success'',
                                             new_name = Some ''y.txt'' \<rparr>, w)),
                 date_now = (\<lambda>w. 0), locale_time = (\<lambda>w. []) \<rparr>;
       s0 = \<lparr> world = (), logIdCounter = 0, currentSeq = 1, newLogs = [] \<rparr>
   in (0::nat) < length [''gone'', ''x.txt'']
    \<and> length (newLogs (dispatch_loop env initial_config 0 [''gone'', ''x.txt''] s0)) = 2"
  using one_entry_per_path
    [where env = "\<lparr> invoke = (\<lambda>w p c. if p = ''gone'' then (Inl (ErrorObject ''no such file''), w)
                                  else (Inr \<lparr> res_path = p, res_status = ''Success'',
                                             new_name = Some ''y.txt'' \<rparr>, w)),
                 date_now = (\<lambda>w. 0), locale_time = (\<lambda>w. []) \<rparr>"
       and cfg = initial_config and k = 0 and ps = "[''gone'', ''x.txt'']"
       and ?s0.0 = "\<lparr> world = (), logIdCounter = 0, currentSeq = 1, newLogs = [] \<rparr>"
       and a = "\<lparr> world = (), logIdCounter = 0, state = initial_config,
                 configRef = initial_config, logs = [], isDragOver = False \<rparr>"]
  by (simp add: Let_def)

subsection \<open>Order\<close>

text \<open>
  C5. The engine receives the paths of a drop in input order, one call after the other,
  each in the world the call before it has left. The entries are surfaced
  most-recent-first: in the batch's list the entry pushed for the path at index \<open>k\<close>
  stands at position \<open>length ps - 1 - k\<close>, so the last path's entry comes first, and
  the batch's list is placed in front of the entries of earlier drops.
\<close>

theorem dispatch_in_order_logs_newest_first:
  assumes "recorded a = []"
    and "ps \<noteq> []"
  shows "let a' = onDragDropEvent (recording env) (Drop ps) a;
             batch = (\<lambda>qs. newLogs (run_batch (recording env) (configRef a) qs
                                (world a) (logIdCounter a)))
         in map fst (recorded a') = ps
          \<and> logs a' = take 50 (batch ps @ logs a)
          \<and> length (batch ps) = length ps
          \<and> (\<forall>k<length ps.
                batch ps ! (length ps - 1 - k) = hd (batch (take (Suc k) ps)))"
proof -
  let ?a' = "onDragDropEvent (recording env) (Drop ps) a"
  let ?batch = "\<lambda>qs. newLogs (run_batch (recording env) (configRef a) qs
                                (world a) (logIdCounter a))"
  obtain new where n: "recorded ?a' = recorded a @ new" "map fst new = ps"
    using drop_recorded [where env=env and ps=ps and a=a] by blast
  have A: "map fst (recorded ?a') = ps" using n assms(1) by simp
  have B: "logs ?a' = take 50 (?batch ps @ logs a)"
    using assms(2) by (rule drop_logs)
  have C: "length (?batch ps) = length ps" by (rule run_batch_newLogs_length)
  have D: "\<forall>k<length ps. ?batch ps ! (length ps - 1 - k) = hd (?batch (take (Suc k) ps))"
  proof (intro allI impI)
    fix k assume "k < length ps"
    then show "?batch ps ! (length ps - 1 - k) = hd (?batch (take (Suc k) ps))"
      unfolding run_batch_def by (rule newLogs_nth)
  qed
  show ?thesis unfolding Let_def by (intro conjI A B C D)
qed

theorem dispatch_in_order_logs_newest_first_witness:
  "let env = \<lparr> invoke = (\<lambda>w p c. (Inr \<lparr> res_path = p, res_status = ''Success'',
                                           new_name = None \<rparr>, w)),
                 date_now = (\<lambda>w. 0), locale_time = (\<lambda>w. []) \<rparr>;
       a = \<lparr> world = ((), []), logIdCounter = 0, state = initial_config,
             configRef = initial_config, logs = [], isDragOver = False \<rparr>;
       a' = onDragDropEvent (recording env) (Drop [''a'', ''b'']) a
   in recorded a = [] \<and> [''a'', ''b''] \<noteq> []
    \<and> map fst (recorded a') = [''a'', ''b'']
    \<and> map log_path (logs a') = [''b'', ''a'']"
proof -
  let ?env = "\<lparr> invoke = (\<lambda>w p c. (Inr \<lparr> res_path = p, res_status = ''Success'',
                                           new_name = None \<rparr>, w)),
                 date_now = (\<lambda>w. 0), locale_time = (\<lambda>w. []) \<rparr> :: unit Env"
  let ?a = "\<lparr> world = ((), []), logIdCounter = 0, state = initial_config,
             configRef = initial_config, logs = [], isDragOver = False \<rparr>
             :: (unit \<times> (string \<times> Cmd) list) App"
  have h1: "recorded ?a = []" by (simp add: recorded_def)
  have h2: "[''a'', ''b''] \<noteq> ([] :: string list)" by simp
  have l: "map log_path (logs (onDragDropEvent (recording ?env) (Drop [''a'', ''b'']) ?a))
      = [''b'', ''a'']"
    by (simp add: onDragDropEvent_def run_batch_def loop_body_def build_cmd.simps
        initial_config_def recording_def outcome_entry_def result_entry_def
        after_render_def Let_def)
  show ?thesis
    using dispatch_in_order_logs_newest_first [OF h1 h2, where env = ?env] h1 l
    by (simp add: Let_def)
qed

text \<open>
  C10. A drop event without paths invokes nothing (the world, which every invocation
  would pass through, is the same, and so is the id counter), adds no log entry and
  leaves the state, the manual counter with it, as it was.
\<close>

theorem empty_drop_changes_nothing:
  "let a' = onDragDropEvent env (Drop []) a
   in world a' = world a
    \<and> logIdCounter a' = logIdCounter a
    \<and> logs a' = logs a
    \<and> state a' = state a
    \<and> currentManualCount (state a') = currentManualCount (state a)"
  by (simp add: drop_empty)

subsection \<open>Events handled at once\<close>

lemma logs_after_render: "logs (after_render prev a) = logs a"
  by (simp add: after_render_def Let_def)

lemma handle_ui:
  "\<forall>p. ev \<noteq> DragDrop p \<Longrightarrow>
   handle env ev a = after_render (state a) (a\<lparr>state := set_state ev (state a)\<rparr>)"
  by (cases ev) (simp_all add: handle_def)

lemma handle_DragDrop: "handle env (DragDrop p) a = onDragDropEvent env p a"
  by (simp add: handle_def)

lemma drop_logs_bound:
  "ps \<noteq> [] \<Longrightarrow> length (logs (onDragDropEvent env (Drop ps) a)) \<le> 50"
proof -
  assume "ps \<noteq> []"
  then have "logs (onDragDropEvent env (Drop ps) a) =
     take 50 (newLogs (run_batch env (configRef a) ps (world a) (logIdCounter a)) @ logs a)"
    by (rule drop_logs)
  moreover have "length (take 50 xs) \<le> 50" for xs :: "LogEntry list"
    by simp
  ultimately show ?thesis by (simp only:)
qed

lemma onDragDropEvent_logs_bound:
  assumes "length (logs a) \<le> 50"
  shows "length (logs (onDragDropEvent env p a)) \<le> 50"
proof (cases p)
  case (Drop ps)
  show ?thesis
  proof (cases "ps = []")
    case True
    then show ?thesis using assms Drop by (simp add: drop_empty)
  next
    case False
    then show ?thesis using Drop by (simp add: drop_logs_bound)
  qed
qed (use assms in \<open>simp_all add: onDragDropEvent_def logs_after_render\<close>)

lemma handle_logs_bound:
  assumes "length (logs a) \<le> 50"
  shows "length (logs (handle env ev a)) \<le> 50"
proof (cases "\<exists>p. ev = DragDrop p")
  case True
  then obtain p where "ev = DragDrop p" by blast
  then show ?thesis
    using onDragDropEvent_logs_bound [OF assms] by (simp add: handle_DragDrop)
next
  case False
  then have "handle env ev a = after_render (state a) (a\<lparr>state := set_state ev (state a)\<rparr>)"
    by (intro handle_ui) blast
  then show ?thesis using assms by (simp add: logs_after_render)
qed

subsection \<open>The manual count and the start value\<close>







subsection \<open>Steps\<close>

lemma step_Resume: "step env (Resume k) \<sigma> = resume env k \<sigma>"
  by (simp add: step_def)

lemma step_start: "step env (Ui (DragDrop (Drop (p # ps)))) \<sigma> = start_batch p ps \<sigma>"
  by (simp add: step_def)

lemma step_other:
  assumes "\<forall>p ps. ev \<noteq> DragDrop (Drop (p # ps))"
  shows "step env (Ui ev) \<sigma> = \<sigma>\<lparr>app := handle env ev (app \<sigma>)\<rparr>"
proof (cases ev)
  case (DragDrop payload)
  show ?thesis
  proof (cases payload)
    case (Drop qs)
    then have "qs = []" using assms DragDrop by (cases qs) simp_all
    then show ?thesis using DragDrop Drop by (simp add: step_def)
  qed (use DragDrop in \<open>simp_all add: step_def\<close>)
qed (simp_all add: step_def)

lemma step_cases:
  obtains (resume) k where "st = Resume k"
  | (start) p ps where "st = Ui (DragDrop (Drop (p # ps)))"
  | (other) ev where "st = Ui ev" and "\<forall>p ps. ev \<noteq> DragDrop (Drop (p # ps))"
proof (cases st)
  case (Resume k)
  then show ?thesis by (rule resume)
next
  case (Ui ev)
  show ?thesis
  proof (cases "\<exists>p ps. ev = DragDrop (Drop (p # ps))")
    case True
    then show ?thesis using Ui start by blast
  next
    case False
    then show ?thesis using Ui other by blast
  qed
qed

subsection \<open>The log in a session\<close>

lemma start_batch_logs: "logs (app (start_batch p ps \<sigma>)) = logs (app \<sigma>)"
  by (simp add: start_batch_def Let_def logs_after_render)

lemma resume_logs_bound:
  assumes "length (logs (app \<sigma>)) \<le> 50"
  shows "length (logs (app (resume env k \<sigma>))) \<le> 50"
proof (cases "k < length (tasks \<sigma>)")
  case False
  then show ?thesis using assms by (simp add: resume_def)
next
  case True
  show ?thesis
  proof (cases "task_rest (tasks \<sigma> ! k)")
    case Nil
    then show ?thesis using True
      by (simp add: resume_def Let_def logs_after_render)
  next
    case (Cons p ps)
    then show ?thesis using True assms
      by (simp add: resume_def Let_def)
  qed
qed

lemma step_logs_bound:
  assumes "length (logs (app \<sigma>)) \<le> 50"
  shows "length (logs (app (step env st \<sigma>))) \<le> 50"
proof (cases st rule: step_cases)
  case (resume k)
  then show ?thesis using resume_logs_bound [OF assms] by (simp add: step_Resume)
next
  case (start p ps)
  then show ?thesis using assms by (simp add: step_start start_batch_logs)
next
  case (other ev)
  then show ?thesis using handle_logs_bound [OF assms] by (simp add: step_other)
qed

lemma foldl_step_logs_bound:
  "length (logs (app \<sigma>)) \<le> 50 \<Longrightarrow>
   length (logs (app (foldl (\<lambda>\<sigma> st. step env st \<sigma>) \<sigma> steps))) \<le> 50"
  by (induction steps arbitrary: \<sigma>) (simp_all add: step_logs_bound)

lemma run_logs_bound: "length (logs (app (run env steps w))) \<le> 50"
  unfolding run_def by (rule foldl_step_logs_bound) (simp add: mount_def Let_def)


subsection \<open>The snapshot and the manual count in a session\<close>

lemma after_render_settled: "configRef (after_render prev a) = state (after_render prev a)"
  by (simp add: after_render_def Let_def)






lemma handle_settled: "configRef (handle env ev a) = state (handle env ev a)"
proof (cases "\<exists>p. ev = DragDrop p")
  case False
  then have "handle env ev a = after_render (state a) (a\<lparr>state := set_state ev (state a)\<rparr>)"
    by (intro handle_ui) blast
  then show ?thesis by (simp add: after_render_settled)
next
  case True
  then obtain p where p: "ev = DragDrop p" by blast
  show ?thesis
  proof (cases p)
    case (Drop ps)
    then show ?thesis using p
      by (cases "ps = []")
        (simp_all add: handle_DragDrop drop_empty drop_nonempty Let_def)
  qed (use p in \<open>simp_all add: handle_DragDrop onDragDropEvent_def after_render_settled\<close>)
qed

lemma step_settled:
  assumes "configRef (app \<sigma>) = state (app \<sigma>)"
  shows "configRef (app (step env st \<sigma>)) = state (app (step env st \<sigma>))"
proof (cases st rule: step_cases)
  case (resume k)
  show ?thesis
  proof (cases "k < length (tasks \<sigma>)")
    case False
    then show ?thesis using assms resume by (simp add: step_Resume resume_def)
  next
    case True
    then show ?thesis using assms resume
      by (cases "task_rest (tasks \<sigma> ! k)")
        (simp_all add: step_Resume resume_def Let_def after_render_settled)
  qed
next
  case (start p ps)
  then show ?thesis
    by (simp add: step_start start_batch_def Let_def after_render_settled)
next
  case (other ev)
  then show ?thesis by (simp add: step_other handle_settled)
qed

lemma run_settled: "configRef (app (run env steps w)) = state (app (run env steps w))"
proof -
  have "configRef (app \<sigma>) = state (app \<sigma>) \<Longrightarrow>
      configRef (app (foldl (\<lambda>\<sigma> st. step env st \<sigma>) \<sigma> steps))
        = state (app (foldl (\<lambda>\<sigma> st. step env st \<sigma>) \<sigma> steps))" for \<sigma> :: "'a Session"
    by (induction steps arbitrary: \<sigma>) (simp_all add: step_settled)
  then show ?thesis unfolding run_def by (simp add: mount_def Let_def)
qed


text \<open>
  C9. A drop with paths sets the retained log to the first 50 entries of the batch's
  list followed by the log as it was, so it keeps the newest 50 entries and drops the
  older ones; the retained log has at most 50 entries after it, and at every moment of
  a session.
\<close>

theorem retained_log_at_most_50:
  "(ps \<noteq> [] \<longrightarrow>
      logs (onDragDropEvent env (Drop ps) a) =
        take 50 (newLogs (run_batch env (configRef a) ps (world a) (logIdCounter a)) @ logs a)
    \<and> length (logs (onDragDropEvent env (Drop ps) a)) \<le> 50)
   \<and> length (logs (app (run env steps w))) \<le> 50"
proof -
  have "ps \<noteq> [] \<longrightarrow>
      logs (onDragDropEvent env (Drop ps) a) =
        take 50 (newLogs (run_batch env (configRef a) ps (world a) (logIdCounter a)) @ logs a)
    \<and> length (logs (onDragDropEvent env (Drop ps) a)) \<le> 50"
    using drop_logs [of ps env a] drop_logs_bound [of ps env a] by blast
  then show ?thesis using run_logs_bound [of env steps w] by blast
qed

theorem retained_log_at_most_50_witness:
  "let env = \<lparr> invoke = (\<lambda>w p c. (Inr \<lparr> res_path = p, res_status = ''Success'',
                                           new_name = None \<rparr>, w)),
                 date_now = (\<lambda>w. 0), locale_time = (\<lambda>w. []) \<rparr>;
       old = \<lparr> log_id = (0, 0), log_path = ''old'', log_status = [], timestamp = [],
               success = True \<rparr>;
       a = \<lparr> world = (), logIdCounter = 50, state = initial_config,
             configRef = initial_config, logs = replicate 50 old, isDragOver = False \<rparr>
   in [''n''] \<noteq> ([] :: string list)
    \<and> length (logs (onDragDropEvent env (Drop [''n'']) a)) = 50
    \<and> length (logs (app (run env [Ui (DragDrop (Drop [''n''])), Resume 0] ()))) \<le> 50"
proof -
  let ?env = "\<lparr> invoke = (\<lambda>w p c. (Inr \<lparr> res_path = p, res_status = ''Success'',
                                           new_name = None \<rparr>, w)),
                 date_now = (\<lambda>w. 0), locale_time = (\<lambda>w. []) \<rparr> :: unit Env"
  let ?old = "\<lparr> log_id = (0, 0), log_path = ''old'', log_status = [], timestamp = [],
               success = True \<rparr>"
  let ?a = "\<lparr> world = (), logIdCounter = 50, state = initial_config,
             configRef = initial_config, logs = replicate 50 ?old, isDragOver = False \<rparr>"
  have h: "[''n''] \<noteq> ([] :: string list)" by simp
  have t: "logs (onDragDropEvent ?env (Drop [''n'']) ?a) =
        take 50 (newLogs (run_batch ?env (configRef ?a) [''n''] (world ?a) (logIdCounter ?a))
                 @ logs ?a)"
    and r: "length (logs (app (run ?env [Ui (DragDrop (Drop [''n''])), Resume 0] ()))) \<le> 50"
    using retained_log_at_most_50
      [where env = ?env and ps = "[''n'']" and a = ?a
         and steps = "[Ui (DragDrop (Drop [''n''])), Resume 0]" and w = "()"] h
    by blast+
  have "length (logs (onDragDropEvent ?env (Drop [''n'']) ?a)) = 50"
    unfolding t by simp
  then show ?thesis using h r by (simp add: Let_def)
qed







subsection \<open>A batch that nothing interrupts\<close>

text \<open>
  A drop whose task is resumed to its end before anything else happens leaves the
  session as \<open>onDragDropEvent\<close> leaves it.
\<close>

lemma resume_last:
  assumes "tasks \<sigma> = ts @ [t]" and "task_rest t = []"
  shows "resume env (length ts) \<sigma> =
     (let a = app \<sigma>; cfg = task_cfg t;
          s = loop_body env cfg (task_i t) (task_path t)
                \<lparr> world = world a, logIdCounter = logIdCounter a,
                  currentSeq = task_seq t, newLogs = task_logs t \<rparr>;
          a1 = a\<lparr>world := world s, logIdCounter := logIdCounter s\<rparr>;
          a2 = a1\<lparr>logs := take 50 (newLogs s @ logs a1)\<rparr>;
          a3 = (if manualIncrement cfg
                then a2\<lparr>state := (state a2)\<lparr>currentManualCount := currentSeq s\<rparr>\<rparr>
                else a2)
      in \<lparr> app = after_render (state a) a3, tasks = ts \<rparr>)"
  using assms by (simp add: resume_def Let_def)

lemma resume_next:
  assumes "tasks \<sigma> = ts @ [t]" and "task_rest t = p # ps"
  shows "resume env (length ts) \<sigma> =
     (let a = app \<sigma>;
          s = loop_body env (task_cfg t) (task_i t) (task_path t)
                \<lparr> world = world a, logIdCounter = logIdCounter a,
                  currentSeq = task_seq t, newLogs = task_logs t \<rparr>
      in \<lparr> app = a\<lparr>world := world s, logIdCounter := logIdCounter s\<rparr>,
           tasks = ts @ [t\<lparr>task_path := p, task_rest := ps, task_i := Suc (task_i t),
                           task_seq := currentSeq s, task_logs := newLogs s\<rparr>] \<rparr>)"
  using assms by (simp add: resume_def Let_def)

lemma resume_to_end:
  assumes "tasks \<sigma> = ts @ [t]"
  shows "foldl (\<lambda>\<sigma> st. step env st \<sigma>) \<sigma>
           (replicate (Suc (length (task_rest t))) (Resume (length ts))) =
     (let a = app \<sigma>; cfg = task_cfg t;
          s = dispatch_loop env cfg (task_i t) (task_path t # task_rest t)
                \<lparr> world = world a, logIdCounter = logIdCounter a,
                  currentSeq = task_seq t, newLogs = task_logs t \<rparr>;
          a1 = a\<lparr>world := world s, logIdCounter := logIdCounter s\<rparr>;
          a2 = a1\<lparr>logs := take 50 (newLogs s @ logs a1)\<rparr>;
          a3 = (if manualIncrement cfg
                then a2\<lparr>state := (state a2)\<lparr>currentManualCount := currentSeq s\<rparr>\<rparr>
                else a2)
      in \<lparr> app = after_render (state a) a3, tasks = ts \<rparr>)"
  using assms
proof (induction "task_rest t" arbitrary: \<sigma> t)
  case Nil
  then have r: "task_rest t = []" by simp
  show ?case
    using resume_last [OF Nil.prems r, of env] by (simp add: r step_Resume)
next
  case (Cons p ps)
  then have r: "task_rest t = p # ps" by simp
  let ?a = "app \<sigma>"
  let ?s = "loop_body env (task_cfg t) (task_i t) (task_path t)
                \<lparr> world = world ?a, logIdCounter = logIdCounter ?a,
                  currentSeq = task_seq t, newLogs = task_logs t \<rparr>"
  let ?t' = "t\<lparr>task_path := p, task_rest := ps, task_i := Suc (task_i t),
                           task_seq := currentSeq ?s, task_logs := newLogs ?s\<rparr>"
  let ?\<sigma>' = "\<lparr> app = ?a\<lparr>world := world ?s, logIdCounter := logIdCounter ?s\<rparr>,
               tasks = ts @ [?t'] \<rparr>"
  have first: "step env (Resume (length ts)) \<sigma> = ?\<sigma>'"
    using resume_next [OF Cons.prems r, of env] by (simp add: step_Resume Let_def)
  have rest': "ps = task_rest ?t'" by simp
  have tk: "tasks ?\<sigma>' = ts @ [?t']" by simp
  have eta: "\<lparr> world = world ?s, logIdCounter = logIdCounter ?s,
                currentSeq = currentSeq ?s, newLogs = newLogs ?s \<rparr> = ?s"
    by simp
  have "foldl (\<lambda>\<sigma> st. step env st \<sigma>) \<sigma>
           (replicate (Suc (length (task_rest t))) (Resume (length ts))) =
        foldl (\<lambda>\<sigma> st. step env st \<sigma>) ?\<sigma>'
           (replicate (Suc (length (task_rest ?t'))) (Resume (length ts)))"
    using first by (simp add: r)
  also have "\<dots> =
     (let a = app ?\<sigma>'; cfg = task_cfg ?t';
          s = dispatch_loop env cfg (task_i ?t') (task_path ?t' # task_rest ?t')
                \<lparr> world = world a, logIdCounter = logIdCounter a,
                  currentSeq = task_seq ?t', newLogs = task_logs ?t' \<rparr>;
          a1 = a\<lparr>world := world s, logIdCounter := logIdCounter s\<rparr>;
          a2 = a1\<lparr>logs := take 50 (newLogs s @ logs a1)\<rparr>;
          a3 = (if manualIncrement cfg
                then a2\<lparr>state := (state a2)\<lparr>currentManualCount := currentSeq s\<rparr>\<rparr>
                else a2)
      in \<lparr> app = after_render (state a) a3, tasks = ts \<rparr>)"
    by (rule Cons.hyps(1) [OF rest' tk])
  also have "\<dots> =
     (let a = app \<sigma>; cfg = task_cfg t;
          s = dispatch_loop env cfg (task_i t) (task_path t # task_rest t)
                \<lparr> world = world a, logIdCounter = logIdCounter a,
                  currentSeq = task_seq t, newLogs = task_logs t \<rparr>;
          a1 = a\<lparr>world := world s, logIdCounter := logIdCounter s\<rparr>;
          a2 = a1\<lparr>logs := take 50 (newLogs s @ logs a1)\<rparr>;
          a3 = (if manualIncrement cfg
                then a2\<lparr>state := (state a2)\<lparr>currentManualCount := currentSeq s\<rparr>\<rparr>
                else a2)
      in \<lparr> app = after_render (state a) a3, tasks = ts \<rparr>)"
    by (simp add: r Let_def eta)
  finally show ?case .
qed

lemma after_render_configRef:
  "after_render prev (a\<lparr>configRef := c\<rparr>) = after_render prev a"
  by (simp add: after_render_def Let_def)

lemma uninterrupted_drop:
  "foldl (\<lambda>\<sigma> st. step env st \<sigma>) \<sigma>
     (Ui (DragDrop (Drop (p # ps))) # replicate (Suc (length ps)) (Resume (length (tasks \<sigma>))))
   = \<sigma>\<lparr>app := onDragDropEvent env (Drop (p # ps)) (app \<sigma>)\<rparr>"
proof -
  let ?a = "app \<sigma>"
  let ?cfg = "configRef ?a"
  let ?t = "\<lparr> task_cfg = ?cfg, task_path = p, task_rest = ps, task_i = 0,
                task_seq = (if manualIncrement ?cfg then currentManualCount ?cfg
                            else serialStart ?cfg),
                task_logs = [] \<rparr>"
  let ?\<sigma>0 = "start_batch p ps \<sigma>"
  have a0: "app ?\<sigma>0 = ?a\<lparr>isDragOver := False, configRef := state ?a\<rparr>"
    by (simp add: start_batch_def Let_def after_render_same)
  have tk: "tasks ?\<sigma>0 = tasks \<sigma> @ [?t]"
    by (simp add: start_batch_def Let_def)
  have len: "Suc (length ps) = Suc (length (task_rest ?t))" by simp
  have "foldl (\<lambda>\<sigma> st. step env st \<sigma>) \<sigma>
     (Ui (DragDrop (Drop (p # ps))) # replicate (Suc (length ps)) (Resume (length (tasks \<sigma>))))
     = foldl (\<lambda>\<sigma> st. step env st \<sigma>) ?\<sigma>0
         (replicate (Suc (length (task_rest ?t))) (Resume (length (tasks \<sigma>))))"
    by (simp add: step_start)
  also have "\<dots> = \<sigma>\<lparr>app := onDragDropEvent env (Drop (p # ps)) (app \<sigma>)\<rparr>"
    unfolding resume_to_end [OF tk]
    by (simp add: a0 Let_def drop_nonempty run_batch_def after_render_same)
  finally show ?thesis .
qed

subsection \<open>Commands\<close>

text \<open>
  C8. A Serial command carries the configured text in exactly one of \<open>prefix\<close> and
  \<open>suffix\<close>, chosen by the position, and the empty string in the other: at position
  start the prefix is the text and the suffix is empty, at position end the prefix is
  empty and the suffix is the text.
\<close>

theorem serial_cmd_prefix_suffix:
  "build_cmd (cfg\<lparr>activeTab := serial\<rparr>) num =
     Some (Serial
       (case serialPosition cfg of PosStart \<Rightarrow> serialText cfg | PosEnd \<Rightarrow> [])
       (case serialPosition cfg of PosStart \<Rightarrow> [] | PosEnd \<Rightarrow> serialText cfg)
       num (serialPad cfg) (keepExt cfg) (\<not> removeOriginal cfg))"
  by (cases "serialPosition cfg") (simp_all add: build_cmd.simps)

section \<open>Properties of the rename engine\<close>

lemma split_name_ext_no_dot:
  assumes "split_name n = (stem, Some e)"
  shows "CHR ''.'' \<notin> set e"
proof -
  have "e = rev (takeWhile (\<lambda>c. c \<noteq> CHR ''.'') (rev n))"
    using assms by (auto simp add: split_name_def Let_def split: if_splits)
  then show ?thesis by (auto dest: set_takeWhileD)
qed

lemma split_name_join:
  assumes "stem \<noteq> []" and "CHR ''.'' \<notin> set e"
  shows "split_name (stem @ CHR ''.'' # e) = (stem, Some e)"
proof -
  have "\<forall>x\<in>set (rev e). x \<noteq> CHR ''.''" using assms(2) by auto
  then have "takeWhile (\<lambda>c. c \<noteq> CHR ''.'') (rev e @ CHR ''.'' # rev stem) = rev e"
    by (simp add: takeWhile_tail)
  then have "rev (takeWhile (\<lambda>c. c \<noteq> CHR ''.'') (rev (stem @ CHR ''.'' # e))) = e"
    by simp
  then show ?thesis using assms(1) by (simp add: split_name_def Let_def)
qed

lemma transform_keeps_ext:
  assumes "preserves_extension cmd" and "transform rx cmd (stem, ext) = Inr (stem', ext')"
  shows "ext' = ext"
  using assms by (cases cmd) (auto split: if_splits option.splits)

text \<open>
  C4. In every mode but Extension, whenever the original name has an extension and the
  mode and \<open>keep_ext\<close> say that it is preserved, the name the engine yields has the
  extension of the original name. (A command that yields no name, because the pattern is
  invalid or the computed stem is empty, renames nothing.)
\<close>

theorem extension_preserved:
  assumes "split_name n = (stem, Some e)"
    and "preserves_extension cmd"
    and "new_name_for rx cmd n = Inr n'"
  shows "snd (split_name n') = Some e"
proof -
  obtain stem' ext' where t: "transform rx cmd (stem, Some e) = Inr (stem', ext')"
    and ne: "stem' \<noteq> []" and n': "n' = join_name (stem', ext')"
    using assms(3) unfolding new_name_for_def assms(1)
    by (auto split: sum.splits prod.splits if_splits)
  have "ext' = Some e" using transform_keeps_ext [OF assms(2) t] .
  then have "n' = stem' @ CHR ''.'' # e" using n' by (simp add: join_name_def)
  moreover have "CHR ''.'' \<notin> set e" using assms(1) by (rule split_name_ext_no_dot)
  ultimately show ?thesis using ne by (simp add: split_name_join)
qed

text \<open>The examples of the specification.\<close>

lemma spec_examples:
  "zero_padded 7 3 = ''007''"
  "zero_padded 1234 3 = ''1234''"
  "new_name_for (\<lambda>f t s. None) (Trim 5 PosEnd) ''abc.png'' = Inl EmptyName"
  "new_name_for (\<lambda>f t s. None) (Replace ''.'' ''_'' False) ''a.b.c'' = Inr ''a_b.c''"
  "new_name_for (\<lambda>f t s. None) (Serial ''Vacation_'' [] 1 3 True False) ''IMG1.png''
     = Inr ''Vacation_001.png''"
  "new_name_for (\<lambda>f t s. None) (Serial ''Vacation_'' [] 2 3 True False) ''IMG2.png''
     = Inr ''Vacation_002.png''"
  by code_simp+

theorem extension_preserved_witness:
  "split_name ''IMG1.png'' = (''IMG1'', Some ''png'')
   \<and> preserves_extension (Serial ''Vacation_'' [] 1 3 True False)
   \<and> new_name_for (\<lambda>f t s. None) (Serial ''Vacation_'' [] 1 3 True False) ''IMG1.png''
       = Inr ''Vacation_001.png''
   \<and> snd (split_name ''Vacation_001.png'') = Some ''png''"
proof -
  have h1: "split_name ''IMG1.png'' = (''IMG1'', Some ''png'')"
    by code_simp
  have h2: "preserves_extension (Serial ''Vacation_'' [] 1 3 True False)"
    by simp
  have h3: "new_name_for (\<lambda>f t s. None) (Serial ''Vacation_'' [] 1 3 True False) ''IMG1.png''
       = Inr ''Vacation_001.png''"
    by code_simp
  show ?thesis using h1 h2 h3 extension_preserved [OF h1 h2 h3] by simp
qed

end
